theory Spec2Isabelle
  imports Main "HOL-Library.Word" "HOL-Library.Multiset"
begin

section \<open>The zlib interface used by task2.cpp\<close>

text \<open>
  \<^verbatim>\<open>task2.cpp\<close> links against zlib.  The library is not part of the repository, so
  the model takes it as a parameter: a record of the four entry points the program
  calls.  A transform call gets the internal state, the \<^verbatim>\<open>avail_in\<close> bytes at
  \<^verbatim>\<open>next_in\<close>, the room \<^verbatim>\<open>avail_out\<close> at \<^verbatim>\<open>next_out\<close> and the flush mode; it
  answers with the return code, the new internal state, the number of input bytes it
  consumed and the bytes it produced.
\<close>

type_synonym byte = "8 word"

datatype flush = Z_NO_FLUSH | Z_FINISH

definition Z_OK :: int where "Z_OK = 0"
definition Z_STREAM_END :: int where "Z_STREAM_END = 1"
definition Z_STREAM_ERROR :: int where "Z_STREAM_ERROR = - 2"
definition Z_DATA_ERROR :: int where "Z_DATA_ERROR = - 3"
definition Z_BUF_ERROR :: int where "Z_BUF_ERROR = - 5"
definition Z_DEFAULT_COMPRESSION :: int where "Z_DEFAULT_COMPRESSION = - 1"

type_synonym 'z xform = "'z \<Rightarrow> byte list \<Rightarrow> nat \<Rightarrow> flush \<Rightarrow> int \<times> 'z \<times> nat \<times> byte list"

record 'z zlib =
  deflateInit :: "int \<Rightarrow> 'z"
  deflate :: "'z xform"
  inflateInit :: "'z"
  inflate :: "'z xform"

text \<open>
  \<^verbatim>\<open>z_stream\<close> as the program uses it: \<open>next_in\<close> holds the \<^verbatim>\<open>avail_in\<close> bytes not
  yet consumed, \<open>avail_out\<close> the room left in the output buffer.
\<close>

record 'z z_stream =
  next_in :: "byte list"
  avail_out :: nat
  state :: 'z

text \<open>
  One call \<^verbatim>\<open>deflate(&zs, flush)\<close> or \<^verbatim>\<open>inflate(&zs, flush)\<close>: the stream is updated in
  place, and the bytes stored at \<^verbatim>\<open>next_out\<close> are returned beside the return code.  The
  library never writes more than \<^verbatim>\<open>avail_out\<close> bytes nor consumes more than
  \<^verbatim>\<open>avail_in\<close>, hence \<open>take\<close> and \<open>drop\<close>.
\<close>

definition zcall :: "'z xform \<Rightarrow> 'z z_stream \<Rightarrow> flush \<Rightarrow> int \<times> byte list \<times> 'z z_stream" where
  "zcall f zs fl =
     (case f (state zs) (next_in zs) (avail_out zs) fl of
        (ret, st', used, produced) \<Rightarrow>
          (let written = take (avail_out zs) produced
           in (ret, written,
               \<lparr>next_in = drop used (next_in zs),
                avail_out = avail_out zs - length written,
                state = st'\<rparr>)))"

section \<open>processFile\<close>

datatype error = CodecError

text \<open>
  Lines 62 to 67: the call in the body of the drain loop.  \<open>eof\<close> is
  \<^verbatim>\<open>inFile.eof()\<close>, which does not change while a chunk is drained.
\<close>

definition transform_call ::
  "'z zlib \<Rightarrow> bool \<Rightarrow> bool \<Rightarrow> 'z z_stream \<Rightarrow> int \<times> byte list \<times> 'z z_stream" where
  "transform_call zl compress eof zs =
     (if compress then zcall (deflate zl) zs (if eof then Z_FINISH else Z_NO_FLUSH)
      else zcall (inflate zl) zs Z_NO_FLUSH)"

text \<open>
  Lines 58 to 78, the \<^verbatim>\<open>do { ... } while (zs.avail_out == 0)\<close> loop.  \<open>call\<close> is the
  transform call of the body, \<open>osz\<close> is \<^verbatim>\<open>outBuffer.size()\<close>, \<open>outFile\<close> the bytes
  written to the destination so far.  The loop has no bound of its own, so a run that
  never leaves it is the value \<open>None\<close>.  \<open>Inl CodecError\<close> is the \<^verbatim>\<open>return\<close> of line 72.
\<close>

partial_function (option) drain ::
  "('z z_stream \<Rightarrow> int \<times> byte list \<times> 'z z_stream) \<Rightarrow> nat \<Rightarrow> 'z z_stream \<Rightarrow> byte list
   \<Rightarrow> ((error + 'z z_stream) \<times> byte list) option" where
  "drain call osz zs outFile =
     (case call (zs\<lparr>avail_out := osz\<rparr>) of
        (ret, written, zs') \<Rightarrow>
          if ret = Z_STREAM_ERROR then Some (Inl CodecError, outFile)
          else if avail_out zs' = 0 then drain call osz zs' (outFile @ written)
          else Some (Inr zs', outFile @ written))"

text \<open>
  Lines 50 to 79, the \<^verbatim>\<open>while (true)\<close> loop over the chunks.  \<open>inFile\<close> is what is left
  of the source, \<open>isz\<close> is \<^verbatim>\<open>inBuffer.size()\<close>.  \<^verbatim>\<open>read\<close> delivers up to \<open>isz\<close> bytes and
  sets \<^verbatim>\<open>eofbit\<close> only when it ran into the end before filling the buffer, that is when
  fewer than \<open>isz\<close> bytes were left.
\<close>

function chunk_loop ::
  "'z zlib \<Rightarrow> bool \<Rightarrow> nat \<Rightarrow> nat \<Rightarrow> 'z z_stream \<Rightarrow> byte list \<Rightarrow> byte list
   \<Rightarrow> ((error + 'z z_stream) \<times> byte list) option" where
  "chunk_loop zl compress isz osz zs inFile outFile =
     (let chunk = take isz inFile; eof = (length inFile < isz)
      in if chunk = [] then Some (Inr zs, outFile)
         else (case drain (transform_call zl compress eof) osz (zs\<lparr>next_in := chunk\<rparr>) outFile of
                 None \<Rightarrow> None
               | Some (Inl e, outFile') \<Rightarrow> Some (Inl e, outFile')
               | Some (Inr zs', outFile') \<Rightarrow>
                   chunk_loop zl compress isz osz zs' (drop isz inFile) outFile'))"
  by pat_completeness auto
termination
  by (relation "measure (\<lambda>(zl, compress, isz, osz, zs, inFile, outFile). length inFile)") auto

text \<open>
  What \<^verbatim>\<open>processFile\<close> can touch outside itself: the files (\<open>files p = None\<close> when no
  file is at \<open>p\<close>), which paths may be opened for reading and for writing, and the lines
  printed on \<^verbatim>\<open>cerr\<close> and \<^verbatim>\<open>cout\<close> (each line is printed under \<^verbatim>\<open>mtx\<close>).
\<close>

record world =
  files :: "string \<rightharpoonup> byte list"
  readable :: "string \<Rightarrow> bool"
  writable :: "string \<Rightarrow> bool"
  cerr :: "string list"
  cout :: "string list"

text \<open>\<^verbatim>\<open>ifstream inFile(inputPath, ios::binary)\<close> is good.\<close>

definition in_opens :: "world \<Rightarrow> string \<Rightarrow> bool" where
  "in_opens w p \<longleftrightarrow> files w p \<noteq> None \<and> readable w p"

text \<open>\<^verbatim>\<open>ofstream outFile(outputPath, ios::binary)\<close> is good; it then has created or emptied the file.\<close>

definition out_opens :: "world \<Rightarrow> string \<Rightarrow> bool" where
  "out_opens w p \<longleftrightarrow> writable w p"

definition BUF :: nat where
  "BUF = 1024 * 1024"

text \<open>
  Lines 25 to 89.  The source is read lazily, after the destination has been opened, so
  the bytes read are the source's content at that moment.  \<^verbatim>\<open>deflateEnd\<close> and
  \<^verbatim>\<open>inflateEnd\<close> only free the internal state.  On the error return of line 72 the
  bytes already written stay in the destination.  \<open>None\<close>: the call never returns.
\<close>

definition processFile ::
  "'z zlib \<Rightarrow> string \<Rightarrow> string \<Rightarrow> bool \<Rightarrow> int \<Rightarrow> world \<Rightarrow> world option" where
  "processFile zl inputPath outputPath compress level w =
     (if \<not> in_opens w inputPath then
        Some (w\<lparr>cerr := cerr w @ [''Error opening input file: '' @ inputPath]\<rparr>)
      else if \<not> out_opens w outputPath then
        Some (w\<lparr>cerr := cerr w @ [''Error opening output file: '' @ outputPath]\<rparr>)
      else
        (let w1 = w\<lparr>files := (files w)(outputPath \<mapsto> [])\<rparr>;
             inFile = the (files w1 inputPath);
             zs = \<lparr>next_in = [], avail_out = 0,
                   state = (if compress then deflateInit zl level else inflateInit zl)\<rparr>
         in case chunk_loop zl compress BUF BUF zs inFile [] of
              None \<Rightarrow> None
            | Some (Inl e, outFile) \<Rightarrow>
                Some (w1\<lparr>files := (files w1)(outputPath \<mapsto> outFile),
                         cerr := cerr w1 @ [''Error during compression/decompression'']\<rparr>)
            | Some (Inr zs', outFile) \<Rightarrow>
                Some (w1\<lparr>files := (files w1)(outputPath \<mapsto> outFile),
                         cout := cout w1 @ [''Processed: '' @ inputPath @ '' -> '' @ outputPath]\<rparr>)))"

section \<open>processFiles\<close>

record CompressionTask =
  inputPath :: string
  outputPath :: string
  compress :: bool
  level :: int

text \<open>
  A worker thread is either at the top of its loop, about to take \<^verbatim>\<open>taskMutex\<close>
  (\<open>Claiming\<close>), or past the critical section with its \<^verbatim>\<open>taskIndex\<close> (\<open>Running\<close>), or
  it has left the lambda (\<open>Returned\<close>).
\<close>

datatype wstatus = Claiming | Running nat | Returned

text \<open>
  The state shared by the threads of one \<^verbatim>\<open>processFiles\<close> call.  \<open>executed\<close> records,
  in the order of completion, which thread ran \<^verbatim>\<open>processFile\<close> on which index.
\<close>

record pool =
  currentTask :: nat
  threads :: "wstatus list"
  env :: world
  executed :: "(nat \<times> nat) list"

text \<open>
  One step of thread \<open>i\<close> (lines 97 to 106).  The critical section of lines 99 to 103
  is one step, since \<^verbatim>\<open>taskMutex\<close> is held throughout; the call of \<^verbatim>\<open>processFile\<close> is
  the other, its effect on the files and its printed line taken at the moment it returns.
  A thread that has returned, or an \<open>i\<close> that names no thread, does nothing.
\<close>

definition worker_step :: "'z zlib \<Rightarrow> CompressionTask list \<Rightarrow> nat \<Rightarrow> pool \<Rightarrow> pool option" where
  "worker_step zl tasks i s =
     (if length (threads s) \<le> i then Some s
      else case threads s ! i of
             Returned \<Rightarrow> Some s
           | Claiming \<Rightarrow>
               if length tasks \<le> currentTask s
               then Some (s\<lparr>threads := (threads s)[i := Returned]\<rparr>)
               else Some (s\<lparr>threads := (threads s)[i := Running (currentTask s)],
                            currentTask := currentTask s + 1\<rparr>)
           | Running taskIndex \<Rightarrow>
               (let task = tasks ! taskIndex
                in case processFile zl (inputPath task) (outputPath task) (compress task)
                          (level task) (env s) of
                     None \<Rightarrow> None
                   | Some w' \<Rightarrow>
                       Some (s\<lparr>threads := (threads s)[i := Claiming], env := w',
                                executed := executed s @ [(i, taskIndex)]\<rparr>)))"

text \<open>The threads take their steps in the order a schedule gives.\<close>

fun run_sched :: "'z zlib \<Rightarrow> CompressionTask list \<Rightarrow> nat list \<Rightarrow> pool \<Rightarrow> pool option" where
  "run_sched zl tasks [] s = Some s"
| "run_sched zl tasks (i # sched) s =
     (case worker_step zl tasks i s of None \<Rightarrow> None | Some s' \<Rightarrow> run_sched zl tasks sched s')"

text \<open>
  Lines 91 to 116.  \<^verbatim>\<open>for (int i = 0; i < numThreads; ++i)\<close> starts \<open>nat numThreads\<close>
  threads (none when \<open>numThreads \<le> 0\<close>); the joins of lines 113 to 115 return once
  every thread has returned (\<open>joined\<close>).
\<close>

definition spawn :: "int \<Rightarrow> world \<Rightarrow> pool" where
  "spawn numThreads w =
     \<lparr>currentTask = 0, threads = replicate (nat numThreads) Claiming, env = w, executed = []\<rparr>"

definition joined :: "pool \<Rightarrow> bool" where
  "joined s \<longleftrightarrow> list_all (\<lambda>t. t = Returned) (threads s)"

definition processFiles ::
  "'z zlib \<Rightarrow> CompressionTask list \<Rightarrow> int \<Rightarrow> nat list \<Rightarrow> world \<Rightarrow> pool option" where
  "processFiles zl tasks numThreads sched w = run_sched zl tasks sched (spawn numThreads w)"

section \<open>What the program needs from the library to return\<close>

text \<open>
  The drain loop repeats as long as a call leaves \<^verbatim>\<open>avail_out == 0\<close>.  zlib turns a
  finite input into a finite output, so it can fill the buffer only so often; \<open>progress\<close>
  says this of a transform call by a measure that every call that fills the buffer
  decreases.
\<close>

definition progress :: "nat \<Rightarrow> ('z z_stream \<Rightarrow> int \<times> byte list \<times> 'z z_stream) \<Rightarrow> bool" where
  "progress osz call \<longleftrightarrow>
     (\<exists>m :: 'z z_stream \<Rightarrow> nat. \<forall>zs.
        case call (zs\<lparr>avail_out := osz\<rparr>) of
          (ret, written, zs') \<Rightarrow> ret \<noteq> Z_STREAM_ERROR \<and> avail_out zs' = 0 \<longrightarrow> m zs' < m zs)"

definition zlib_progress :: "nat \<Rightarrow> 'z zlib \<Rightarrow> bool" where
  "zlib_progress osz zl \<longleftrightarrow> (\<forall>compress eof. progress osz (transform_call zl compress eof))"

section \<open>A small instance of the interface\<close>

text \<open>
  An instance of the interface to run the model on.  As zlib does, it may keep input back
  while no flush is asked for, it writes a header first, it ends the stream on
  \<open>Z_FINISH\<close>, and its \<open>inflate\<close> answers \<open>Z_DATA_ERROR\<close> on bytes that are no stream.
  The format: the header byte \<open>0x78\<close>, then \<open>1, b\<close> for every byte \<open>b\<close>, then \<open>0\<close>.
\<close>

datatype phase = WantHeader | WantTag | WantLiteral | AtEnd | Bad

datatype toy_state =
    Deflating bool "byte list" "byte list" bool
  | Inflating phase "byte list"

definition frames :: "byte list \<Rightarrow> byte list" where
  "frames bs = concat (map (\<lambda>b. [1, b]) bs)"

fun toy_deflate :: "toy_state xform" where
  "toy_deflate (Deflating header_done held pending finished) inp cap fl =
     (let pending1 = pending @ (if header_done then [] else [0x78]);
          held1 = held @ inp;
          finishing = (fl = Z_FINISH \<and> \<not> finished);
          pending2 = (if finishing then pending1 @ frames held1 @ [0] else pending1);
          held2 = (if finishing then [] else held1);
          finished2 = (finished \<or> fl = Z_FINISH)
      in (if finished2 \<and> length pending2 \<le> cap then Z_STREAM_END else Z_OK,
          Deflating True held2 (drop cap pending2) finished2,
          length inp,
          take cap pending2))"
| "toy_deflate (Inflating ph q) inp cap fl = (Z_STREAM_ERROR, Inflating ph q, 0, [])"

fun feed :: "phase \<Rightarrow> byte list \<Rightarrow> phase \<times> byte list" where
  "feed ph [] = (ph, [])"
| "feed WantHeader (b # bs) = (if b = 0x78 then feed WantTag bs else (Bad, []))"
| "feed WantTag (b # bs) =
     (if b = 1 then feed WantLiteral bs else if b = 0 then (AtEnd, []) else (Bad, []))"
| "feed WantLiteral (b # bs) = (case feed WantTag bs of (ph, d) \<Rightarrow> (ph, b # d))"
| "feed AtEnd (b # bs) = (AtEnd, [])"
| "feed Bad (b # bs) = (Bad, [])"

fun toy_inflate :: "toy_state xform" where
  "toy_inflate (Inflating ph q) inp cap fl =
     (case feed ph inp of
        (ph', d) \<Rightarrow>
          (let q' = q @ d
           in (if ph' = Bad then Z_DATA_ERROR
               else if ph' = AtEnd \<and> length q' \<le> cap then Z_STREAM_END
               else if inp = [] \<and> q' = [] then Z_BUF_ERROR
               else Z_OK,
               Inflating ph' (drop cap q'),
               length inp,
               take cap q')))"
| "toy_inflate (Deflating h held p f) inp cap fl = (Z_STREAM_ERROR, Deflating h held p f, 0, [])"

definition toy :: "toy_state zlib" where
  "toy = \<lparr>deflateInit = (\<lambda>level. Deflating False [] [] False),
          deflate = toy_deflate,
          inflateInit = Inflating WantHeader [],
          inflate = toy_inflate\<rparr>"


text \<open>A world with one file, where every path may be opened.\<close>

definition one_file :: "string \<Rightarrow> byte list \<Rightarrow> world" where
  "one_file p bs =
     \<lparr>files = [p \<mapsto> bs], readable = (\<lambda>_. True), writable = (\<lambda>_. True), cerr = [], cout = []\<rparr>"

section \<open>Notions used to state the properties\<close>

text \<open>The indices that threads hold between their claim and the end of their job.\<close>

fun running_index :: "wstatus \<Rightarrow> nat list" where
  "running_index (Running k) = [k]"
| "running_index Claiming = []"
| "running_index Returned = []"

definition claimed :: "wstatus list \<Rightarrow> nat list" where
  "claimed ws = concat (map running_index ws)"

text \<open>
  The invariant of the dispatch: the cursor stays within the task list, the indices below
  the cursor are exactly those executed or held by a thread, each once, and a thread
  returns only when the cursor has reached the end.
\<close>

definition pool_inv :: "CompressionTask list \<Rightarrow> pool \<Rightarrow> bool" where
  "pool_inv tasks s \<longleftrightarrow>
     currentTask s \<le> length tasks \<and>
     mset (map snd (executed s)) + mset (claimed (threads s)) = mset [0..<currentTask s] \<and>
     (Returned \<in> set (threads s) \<longrightarrow> currentTask s = length tasks)"


text \<open>A bound on the steps still to come: it decreases with every step that changes the pool.\<close>

fun weight :: "wstatus \<Rightarrow> nat" where
  "weight Claiming = 1"
| "weight (Running k) = 2"
| "weight Returned = 0"

definition work_left :: "CompressionTask list \<Rightarrow> pool \<Rightarrow> nat" where
  "work_left tasks s = 3 * (length tasks - currentTask s) + sum_list (map weight (threads s))"


section \<open>Concrete runs\<close>

text \<open>Two jobs, the second with a source that does not exist, and where two threads leave them.\<close>

definition tasks2 :: "CompressionTask list" where
  "tasks2 = [\<lparr>inputPath = ''a'', outputPath = ''a.gz'', compress = True, level = 6\<rparr>,
             \<lparr>inputPath = ''missing'', outputPath = ''m.gz'', compress = True, level = 6\<rparr>]"

definition final2 :: pool where
  "final2 = \<lparr>currentTask = 2, threads = [Returned, Returned],
        env = \<lparr>files = [''a'' \<mapsto> [1, 2, 3], ''a.gz'' \<mapsto> [0x78, 1, 1, 1, 2, 1, 3, 0]],
                 readable = (\<lambda>_. True), writable = (\<lambda>_. True),
                 cerr = [''Error opening input file: missing''],
                 cout = [''Processed: a -> a.gz'']\<rparr>,
        executed = [(0, 0), (1, 1)]\<rparr>"







text \<open>The small instance with a \<open>deflate\<close> that takes every call as \<open>Z_NO_FLUSH\<close>.\<close>

definition never_finishing :: "toy_state zlib" where
  "never_finishing = toy\<lparr>deflate := (\<lambda>st inp cap fl. toy_deflate st inp cap Z_NO_FLUSH)\<rparr>"


section \<open>The loops unfolded, and when they end\<close>

declare chunk_loop.simps [simp del]

lemma drain_error:
  "call (zs\<lparr>avail_out := osz\<rparr>) = (ret, written, zs') \<Longrightarrow> ret = Z_STREAM_ERROR \<Longrightarrow>
   drain call osz zs outFile = Some (Inl CodecError, outFile)"
  by (subst drain.simps) simp

lemma drain_exit:
  "call (zs\<lparr>avail_out := osz\<rparr>) = (ret, written, zs') \<Longrightarrow> ret \<noteq> Z_STREAM_ERROR \<Longrightarrow>
   avail_out zs' \<noteq> 0 \<Longrightarrow> drain call osz zs outFile = Some (Inr zs', outFile @ written)"
  by (subst drain.simps) simp

lemma drain_again:
  "call (zs\<lparr>avail_out := osz\<rparr>) = (ret, written, zs') \<Longrightarrow> ret \<noteq> Z_STREAM_ERROR \<Longrightarrow>
   avail_out zs' = 0 \<Longrightarrow> drain call osz zs outFile = drain call osz zs' (outFile @ written)"
  by (subst drain.simps) simp

lemma drain_returns:
  assumes "progress osz call"
  shows "\<exists>r. drain call osz zs outFile = Some r"
proof -
  from assms obtain m :: "'a z_stream \<Rightarrow> nat" where m:
    "\<And>zs ret written zs'. call (zs\<lparr>avail_out := osz\<rparr>) = (ret, written, zs') \<Longrightarrow>
       ret \<noteq> Z_STREAM_ERROR \<Longrightarrow> avail_out zs' = 0 \<Longrightarrow> m zs' < m zs"
    unfolding progress_def by (metis (mono_tags, lifting) case_prod_conv)
  show ?thesis
  proof (induction "m zs" arbitrary: zs outFile rule: less_induct)
    case less
    obtain ret written zs' where c: "call (zs\<lparr>avail_out := osz\<rparr>) = (ret, written, zs')"
      by (cases "call (zs\<lparr>avail_out := osz\<rparr>)") auto
    show ?case
    proof (cases "ret = Z_STREAM_ERROR")
      case True
      with c show ?thesis by (simp add: drain_error)
    next
      case False
      show ?thesis
      proof (cases "avail_out zs' = 0")
        case True
        with c False have "m zs' < m zs" by (rule_tac m) auto
        from less[OF this] c False True show ?thesis by (simp add: drain_again)
      next
        case nz: False
        with c False show ?thesis by (simp add: drain_exit)
      qed
    qed
  qed
qed

lemma chunk_loop_end:
  "take isz inFile = [] \<Longrightarrow> chunk_loop zl c isz osz zs inFile outFile = Some (Inr zs, outFile)"
  by (subst chunk_loop.simps) (simp add: Let_def)

lemma chunk_loop_chunk:
  "take isz inFile \<noteq> [] \<Longrightarrow>
   chunk_loop zl c isz osz zs inFile outFile =
     (case drain (transform_call zl c (length inFile < isz)) osz (zs\<lparr>next_in := take isz inFile\<rparr>) outFile of
        None \<Rightarrow> None
      | Some (Inl e, outFile') \<Rightarrow> Some (Inl e, outFile')
      | Some (Inr zs', outFile') \<Rightarrow> chunk_loop zl c isz osz zs' (drop isz inFile) outFile')"
  by (subst chunk_loop.simps) (simp add: Let_def)

lemma chunk_loop_returns:
  assumes "zlib_progress osz zl"
  shows "\<exists>r. chunk_loop zl c isz osz zs inFile outFile = Some r"
proof (induction "length inFile" arbitrary: zs inFile outFile rule: less_induct)
  case less
  show ?case
  proof (cases "take isz inFile = []")
    case True
    then show ?thesis by (simp add: chunk_loop_end)
  next
    case False
    then have shorter: "length (drop isz inFile) < length inFile" by auto
    from assms have "progress osz (transform_call zl c (length inFile < isz))"
      by (simp add: zlib_progress_def)
    then obtain r where r:
      "drain (transform_call zl c (length inFile < isz)) osz (zs\<lparr>next_in := take isz inFile\<rparr>) outFile = Some r"
      using drain_returns by blast
    obtain res outFile' where r': "r = (res, outFile')" by (cases r) auto
    show ?thesis
    proof (cases res)
      case (Inl e)
      with False r r' show ?thesis by (simp add: chunk_loop_chunk)
    next
      case (Inr zs')
      with False r r' less[OF shorter, of zs' outFile'] show ?thesis by (simp add: chunk_loop_chunk)
    qed
  qed
qed

lemma processFile_returns:
  assumes "zlib_progress BUF zl"
  shows "\<exists>w'. processFile zl inp outp c lvl w = Some w'"
proof -
  obtain r where "chunk_loop zl c BUF BUF \<lparr>next_in = [], avail_out = 0,
                   state = (if c then deflateInit zl lvl else inflateInit zl)\<rparr> (the (((files w)(outp \<mapsto> [])) inp)) [] = Some r"
    using chunk_loop_returns[OF assms] by blast
  then show ?thesis
    by (cases r) (auto simp: processFile_def Let_def split: sum.splits)
qed

section \<open>The small instance makes progress\<close>

lemma length_frames: "length (frames bs) = 2 * length bs"
  by (induction bs) (simp_all add: frames_def)

lemma feed_Nil_snd: "snd (feed ph []) = []"
  by simp

lemma toy_deflate_progress:
  assumes "0 < osz"
  shows "progress osz (\<lambda>zs. zcall toy_deflate zs fl)"
  unfolding progress_def
proof (rule exI[of _ "\<lambda>zs. case state zs of
          Deflating h held pend fin \<Rightarrow>
            length pend + (if h then 0 else 1) +
            (if fl = Z_FINISH \<and> \<not> fin then 2 * (length held + length (next_in zs)) + 1 else 0)
        | Inflating ph q \<Rightarrow> 0"], rule allI)
  fix zs :: "toy_state z_stream"
  show "case zcall toy_deflate (zs\<lparr>avail_out := osz\<rparr>) fl of
          (ret, written, zs') \<Rightarrow> ret \<noteq> Z_STREAM_ERROR \<and> avail_out zs' = 0 \<longrightarrow>
            (case state zs' of
          Deflating h held pend fin \<Rightarrow>
            length pend + (if h then 0 else 1) +
            (if fl = Z_FINISH \<and> \<not> fin then 2 * (length held + length (next_in zs')) + 1 else 0)
        | Inflating ph q \<Rightarrow> 0) < (case state zs of
          Deflating h held pend fin \<Rightarrow>
            length pend + (if h then 0 else 1) +
            (if fl = Z_FINISH \<and> \<not> fin then 2 * (length held + length (next_in zs)) + 1 else 0)
        | Inflating ph q \<Rightarrow> 0)"
  proof (cases "state zs")
    case (Deflating h held pend fin)
    with assms show ?thesis
      by (cases fl) (auto simp: zcall_def Let_def length_frames)
  next
    case (Inflating ph q)
    then show ?thesis by (simp add: zcall_def)
  qed
qed

lemma toy_inflate_progress:
  assumes "0 < osz"
  shows "progress osz (\<lambda>zs. zcall toy_inflate zs fl)"
  unfolding progress_def
proof (rule exI[of _ "\<lambda>zs. case state zs of
          Inflating ph q \<Rightarrow> length q + length (snd (feed ph (next_in zs)))
        | Deflating h held pend fin \<Rightarrow> 0"], rule allI)
  fix zs :: "toy_state z_stream"
  show "case zcall toy_inflate (zs\<lparr>avail_out := osz\<rparr>) fl of
          (ret, written, zs') \<Rightarrow> ret \<noteq> Z_STREAM_ERROR \<and> avail_out zs' = 0 \<longrightarrow>
            (case state zs' of
          Inflating ph q \<Rightarrow> length q + length (snd (feed ph (next_in zs')))
        | Deflating h held pend fin \<Rightarrow> 0) < (case state zs of
          Inflating ph q \<Rightarrow> length q + length (snd (feed ph (next_in zs)))
        | Deflating h held pend fin \<Rightarrow> 0)"
  proof (cases "state zs")
    case (Deflating h held pend fin)
    then show ?thesis by (simp add: zcall_def)
  next
    case (Inflating ph q)
    with assms show ?thesis
      by (cases "feed ph (next_in zs)") (auto simp: zcall_def Let_def)
  qed
qed

lemma toy_progress: "0 < osz \<Longrightarrow> zlib_progress osz toy"
proof -
  assume pos: "0 < osz"
  have "progress osz (transform_call toy c e)" for c e
  proof (cases c)
    case True
    then have "transform_call toy c e = (\<lambda>zs. zcall toy_deflate zs (if e then Z_FINISH else Z_NO_FLUSH))"
      by (auto simp: transform_call_def toy_def)
    then show ?thesis using toy_deflate_progress[OF pos] by simp
  next
    case False
    then have "transform_call toy c e = (\<lambda>zs. zcall toy_inflate zs Z_NO_FLUSH)"
      by (auto simp: transform_call_def toy_def)
    then show ?thesis using toy_inflate_progress[OF pos] by simp
  qed
  then show ?thesis by (simp add: zlib_progress_def)
qed

lemmas run_simps = processFile_def one_file_def in_opens_def out_opens_def Let_def
  chunk_loop_chunk chunk_loop_end drain.simps transform_call_def zcall_def toy_def BUF_def
  Z_STREAM_ERROR_def Z_OK_def Z_STREAM_END_def Z_DATA_ERROR_def Z_BUF_ERROR_def frames_def


section \<open>The dispatch\<close>

lemma claimed_update:
  "i < length ws \<Longrightarrow>
   mset (claimed (ws[i := v])) + mset (running_index (ws ! i)) =
   mset (claimed ws) + mset (running_index v)"
proof (induction ws arbitrary: i)
  case Nil
  then show ?case by simp
next
  case (Cons a ws)
  show ?case
  proof (cases i)
    case 0
    then show ?thesis by (simp add: claimed_def)
  next
    case (Suc j)
    with Cons.prems have "j < length ws" by simp
    from Cons.IH[OF this] Suc show ?thesis by (simp add: claimed_def)
  qed
qed

lemma weight_update:
  "i < length ws \<Longrightarrow>
   sum_list (map weight (ws[i := v])) + weight (ws ! i) = sum_list (map weight ws) + weight v"
proof (induction ws arbitrary: i)
  case Nil
  then show ?case by simp
next
  case (Cons a ws)
  show ?case
  proof (cases i)
    case 0
    then show ?thesis by simp
  next
    case (Suc j)
    with Cons.prems have "j < length ws" by simp
    from Cons.IH[OF this] Suc show ?thesis by simp
  qed
qed

lemma claimed_all_returned: "list_all (\<lambda>t. t = Returned) ws \<Longrightarrow> claimed ws = []"
  by (induction ws) (auto simp: claimed_def)

lemma claimed_replicate_Claiming: "claimed (replicate n Claiming) = []"
  by (induction n) (auto simp: claimed_def)

lemma Returned_in_update:
  "Returned \<in> set (ws[i := v]) \<Longrightarrow> v = Returned \<or> Returned \<in> set ws"
  using set_update_subset_insert[of ws i v] by auto

text \<open>The three kinds of step.\<close>

lemma worker_step_cases:
  assumes "worker_step zl tasks i s = Some s'"
  obtains
    (idle) "s' = s" "length (threads s) \<le> i \<or> threads s ! i = Returned"
  | (leave) "i < length (threads s)" "threads s ! i = Claiming" "length tasks \<le> currentTask s"
      "s' = s\<lparr>threads := (threads s)[i := Returned]\<rparr>"
  | (claim) "i < length (threads s)" "threads s ! i = Claiming" "currentTask s < length tasks"
      "s' = s\<lparr>threads := (threads s)[i := Running (currentTask s)], currentTask := currentTask s + 1\<rparr>"
  | (run) k w' where "i < length (threads s)" "threads s ! i = Running k"
      "processFile zl (inputPath (tasks ! k)) (outputPath (tasks ! k)) (compress (tasks ! k))
         (level (tasks ! k)) (env s) = Some w'"
      "s' = s\<lparr>threads := (threads s)[i := Claiming], env := w', executed := executed s @ [(i, k)]\<rparr>"
proof (cases "length (threads s) \<le> i")
  case True
  with assms idle show ?thesis by (simp add: worker_step_def)
next
  case False
  then have i: "i < length (threads s)" by simp
  show ?thesis
  proof (cases "threads s ! i")
    case Claiming
    with assms i leave claim show ?thesis
      by (cases "length tasks \<le> currentTask s") (auto simp: worker_step_def)
  next
    case (Running k)
    with assms i run show ?thesis
      by (auto simp: worker_step_def Let_def split: option.splits)
  next
    case Returned
    with assms i idle show ?thesis by (simp add: worker_step_def)
  qed
qed

lemma pool_inv_spawn: "pool_inv tasks (spawn n w)"
  by (simp add: pool_inv_def spawn_def claimed_replicate_Claiming)

lemma pool_inv_step:
  assumes inv: "pool_inv tasks s" and step: "worker_step zl tasks i s = Some s'"
  shows "pool_inv tasks s'"
  using step
proof (cases rule: worker_step_cases)
  case idle
  with inv show ?thesis by simp
next
  case leave
  from claimed_update[OF leave(1), of Returned] leave(2)
  have "mset (claimed ((threads s)[i := Returned])) = mset (claimed (threads s))" by simp
  with inv leave show ?thesis by (auto simp: pool_inv_def)
next
  case claim
  from claimed_update[OF claim(1), of "Running (currentTask s)"] claim(2)
  have "mset (claimed ((threads s)[i := Running (currentTask s)])) =
        mset (claimed (threads s)) + {#currentTask s#}" by simp
  moreover have "Returned \<notin> set ((threads s)[i := Running (currentTask s)])"
    using inv claim(3) Returned_in_update[of "threads s" i "Running (currentTask s)"]
    by (auto simp: pool_inv_def)
  ultimately show ?thesis using inv claim by (auto simp: pool_inv_def)
next
  case (run k w')
  from claimed_update[OF run(1), of Claiming] run(2)
  have upd: "mset (claimed ((threads s)[i := Claiming])) + {#k#} = mset (claimed (threads s))" by simp
  have "mset (map snd (executed s @ [(i, k)])) + mset (claimed ((threads s)[i := Claiming])) =
        mset (map snd (executed s)) + (mset (claimed ((threads s)[i := Claiming])) + {#k#})"
    by simp
  also have "\<dots> = mset (map snd (executed s)) + mset (claimed (threads s))"
    by (simp only: upd)
  also from inv have "\<dots> = mset [0..<currentTask s]" by (simp add: pool_inv_def)
  finally have count: "mset (map snd (executed s @ [(i, k)])) +
      mset (claimed ((threads s)[i := Claiming])) = mset [0..<currentTask s]" .
  have "Returned \<in> set ((threads s)[i := Claiming]) \<Longrightarrow> Returned \<in> set (threads s)"
    using Returned_in_update[of "threads s" i Claiming] by auto
  with inv have "Returned \<in> set ((threads s)[i := Claiming]) \<longrightarrow> currentTask s = length tasks"
    by (auto simp: pool_inv_def)
  with inv count run(4) show ?thesis by (simp add: pool_inv_def)
qed

lemma pool_inv_run_sched:
  "pool_inv tasks s \<Longrightarrow> run_sched zl tasks sched s = Some s' \<Longrightarrow> pool_inv tasks s'"
proof (induction sched arbitrary: s)
  case Nil
  then show ?case by simp
next
  case (Cons i sched)
  then show ?case by (auto split: option.splits dest: pool_inv_step)
qed

lemma run_sched_append:
  "run_sched zl tasks (a @ b) s = Option.bind (run_sched zl tasks a s) (run_sched zl tasks b)"
  by (induction a arbitrary: s) (auto split: option.splits)

lemma cursor_step:
  assumes "worker_step zl tasks i s = Some s'"
  shows "currentTask s \<le> currentTask s' \<and>
         (currentTask s' \<noteq> currentTask s \<longrightarrow>
            i < length (threads s) \<and> threads s ! i = Claiming \<and> currentTask s < length tasks \<and>
            currentTask s' = currentTask s + 1 \<and> threads s' ! i = Running (currentTask s))"
  using assms by (cases rule: worker_step_cases) auto

lemma step_decreases:
  assumes prog: "zlib_progress BUF zl" and i: "i < length (threads s)" and nr: "threads s ! i \<noteq> Returned"
  shows "\<exists>s'. worker_step zl tasks i s = Some s' \<and> work_left tasks s' < work_left tasks s"
proof (cases "threads s ! i")
  case Claiming
  show ?thesis
  proof (cases "length tasks \<le> currentTask s")
    case True
    with Claiming i weight_update[OF i, of Returned] show ?thesis
      by (simp add: worker_step_def work_left_def)
  next
    case False
    with Claiming i weight_update[OF i, of "Running (currentTask s)"] show ?thesis
      by (simp add: worker_step_def work_left_def)
  qed
next
  case (Running k)
  obtain w' where "processFile zl (inputPath (tasks ! k)) (outputPath (tasks ! k)) (compress (tasks ! k))
         (level (tasks ! k)) (env s) = Some w'"
    using processFile_returns[OF prog] by blast
  with Running i weight_update[OF i, of Claiming] show ?thesis
    by (simp add: worker_step_def work_left_def)
next
  case Returned
  with nr show ?thesis by simp
qed

lemma completes:
  assumes prog: "zlib_progress BUF zl"
  shows "\<exists>sched s'. run_sched zl tasks sched s = Some s' \<and> joined s'"
proof (induction "work_left tasks s" arbitrary: s rule: less_induct)
  case less
  show ?case
  proof (cases "joined s")
    case True
    then have "run_sched zl tasks [] s = Some s \<and> joined s" by simp
    then show ?thesis by blast
  next
    case False
    then obtain i where i: "i < length (threads s)" and nr: "threads s ! i \<noteq> Returned"
      by (auto simp: joined_def list_all_length)
    from step_decreases[OF prog i nr] obtain s1 where
      s1: "worker_step zl tasks i s = Some s1" and d: "work_left tasks s1 < work_left tasks s"
      by blast
    from less[OF d] obtain sched s' where "run_sched zl tasks sched s1 = Some s'" "joined s'"
      by blast
    with s1 have "run_sched zl tasks (i # sched) s = Some s' \<and> joined s'" by simp
    then show ?thesis by blast
  qed
qed

lemma joined_all_executed:
  assumes inv: "pool_inv tasks s" and j: "joined s" and ne: "threads s \<noteq> []"
  shows "mset (map snd (executed s)) = mset [0..<length tasks]"
proof -
  from j have c: "claimed (threads s) = []" by (simp add: joined_def claimed_all_returned)
  from j ne have "Returned \<in> set (threads s)"
    by (cases "threads s") (auto simp: joined_def)
  with inv have "currentTask s = length tasks" by (simp add: pool_inv_def)
  with inv c show ?thesis by (simp add: pool_inv_def)
qed

lemma executed_within:
  assumes inv: "pool_inv tasks s"
  shows "mset (map snd (executed s)) \<subseteq># mset [0..<length tasks]"
proof -
  from inv have le: "currentTask s \<le> length tasks" by (simp add: pool_inv_def)
  from inv have "mset (map snd (executed s)) \<subseteq># mset [0..<currentTask s]"
    by (metis pool_inv_def mset_subset_eq_add_left)
  also have "mset [0..<currentTask s] \<subseteq># mset ([0..<currentTask s] @ [currentTask s..<length tasks])"
    by simp
  also from le have "[0..<currentTask s] @ [currentTask s..<length tasks] = [0..<length tasks]"
    by (metis le_add_diff_inverse upt_add_eq_append zero_le)
  finally show ?thesis .
qed

lemma length_threads_step:
  "worker_step zl tasks i s = Some s' \<Longrightarrow> length (threads s') = length (threads s)"
  by (cases rule: worker_step_cases) auto

lemma length_threads_run_sched:
  "run_sched zl tasks sched s = Some s' \<Longrightarrow> length (threads s') = length (threads s)"
proof (induction sched arbitrary: s)
  case Nil
  then show ?case by simp
next
  case (Cons i sched)
  then show ?case by (auto split: option.splits dest: length_threads_step)
qed

lemmas pool_simps = processFiles_def spawn_def worker_step_def joined_def tasks2_def numeral_2_eq_2

lemma run2: "processFiles toy tasks2 2 [0, 1, 0, 1, 0, 1] (one_file ''a'' [1, 2, 3]) =
  Some \<lparr>currentTask = 2, threads = [Returned, Returned],
        env = \<lparr>files = [''a'' \<mapsto> [1, 2, 3], ''a.gz'' \<mapsto> [0x78, 1, 1, 1, 2, 1, 3, 0]],
                 readable = (\<lambda>_. True), writable = (\<lambda>_. True),
                 cerr = [''Error opening input file: missing''],
                 cout = [''Processed: a -> a.gz'']\<rparr>,
        executed = [(0, 0), (1, 1)]\<rparr>"
  by (simp add: pool_simps run_simps)


text \<open>
  C2.  With at least one thread, whatever the schedule: the indices executed so far are
  indices of the task list and none is executed twice; once every thread has returned,
  each index of the task list has been executed exactly once (so by exactly one thread);
  the run can always be continued until every thread has returned; a step never lowers
  the cursor, which changes only in the critical section of a claiming thread, by one,
  the claimed index going to that thread; and every thread that has not returned can
  take its next step, which leaves less work than before.
\<close>

theorem exactly_once_claiming:
  assumes prog: "zlib_progress BUF zl" and n: "1 \<le> numThreads"
    and run: "processFiles zl tasks numThreads sched w = Some s"
  shows "mset (map snd (executed s)) \<subseteq># mset [0..<length tasks] \<and>
         (joined s \<longrightarrow> mset (map snd (executed s)) = mset [0..<length tasks]) \<and>
         (\<exists>sched' s'. processFiles zl tasks numThreads (sched @ sched') w = Some s' \<and> joined s') \<and>
         (\<forall>i s'. worker_step zl tasks i s = Some s' \<longrightarrow>
            currentTask s \<le> currentTask s' \<and>
            (currentTask s' \<noteq> currentTask s \<longrightarrow>
               i < length (threads s) \<and> threads s ! i = Claiming \<and> currentTask s < length tasks \<and>
               currentTask s' = currentTask s + 1 \<and> threads s' ! i = Running (currentTask s))) \<and>
         (\<forall>i. i < length (threads s) \<and> threads s ! i \<noteq> Returned \<longrightarrow>
            (\<exists>s'. worker_step zl tasks i s = Some s' \<and> work_left tasks s' < work_left tasks s))"
proof -
  from run have inv: "pool_inv tasks s"
    unfolding processFiles_def using pool_inv_spawn pool_inv_run_sched by blast
  from run n have ne: "threads s \<noteq> []"
    unfolding processFiles_def using length_threads_run_sched[of zl tasks sched "spawn numThreads w" s]
    by (auto simp: spawn_def)
  from completes[OF prog, of tasks s] obtain sched' s' where
    "run_sched zl tasks sched' s = Some s'" "joined s'" by blast
  with run have "processFiles zl tasks numThreads (sched @ sched') w = Some s' \<and> joined s'"
    by (simp add: processFiles_def run_sched_append)
  then have ex: "\<exists>sched' s'. processFiles zl tasks numThreads (sched @ sched') w = Some s' \<and> joined s'"
    by blast
  have live: "\<forall>i. i < length (threads s) \<and> threads s ! i \<noteq> Returned \<longrightarrow>
            (\<exists>s'. worker_step zl tasks i s = Some s' \<and> work_left tasks s' < work_left tasks s)"
    using step_decreases[OF prog] by blast
  from executed_within[OF inv] joined_all_executed[OF inv _ ne] ex cursor_step[of zl tasks _ s] live
  show ?thesis by blast
qed

text \<open>
  Two threads on \<open>tasks2\<close>: the first claim out of the initial pool, and the whole run
  with the threads taken in turns.
\<close>

theorem exactly_once_claiming_witness:
  "zlib_progress BUF toy \<and> (1::int) \<le> 2 \<and>
   processFiles toy tasks2 2 [] (one_file ''a'' [1, 2, 3]) = Some (spawn 2 (one_file ''a'' [1, 2, 3])) \<and>
   0 < length (threads (spawn 2 (one_file ''a'' [1, 2, 3]))) \<and>
   threads (spawn 2 (one_file ''a'' [1, 2, 3])) ! 0 \<noteq> Returned \<and>
   (\<exists>s'. worker_step toy tasks2 0 (spawn 2 (one_file ''a'' [1, 2, 3])) = Some s' \<and>
         currentTask s' \<noteq> currentTask (spawn 2 (one_file ''a'' [1, 2, 3])) \<and>
         currentTask s' = 1 \<and> threads s' ! 0 = Running 0 \<and>
         work_left tasks2 s' < work_left tasks2 (spawn 2 (one_file ''a'' [1, 2, 3]))) \<and>
   processFiles toy tasks2 2 [0, 1, 0, 1, 0, 1] (one_file ''a'' [1, 2, 3]) = Some final2 \<and>
   joined final2 \<and>
   mset (map snd (executed final2)) = mset [0..<length tasks2]"
proof -
  let ?w = "one_file ''a'' [1, 2, 3]"
  have prog: "zlib_progress BUF toy" by (rule toy_progress) (simp add: BUF_def)
  have n: "(1::int) \<le> 2" by simp
  have run0: "processFiles toy tasks2 2 [] ?w = Some (spawn 2 ?w)"
    by (simp add: processFiles_def)
  have i: "0 < length (threads (spawn 2 ?w))" and nr: "threads (spawn 2 ?w) ! 0 \<noteq> Returned"
    by (simp_all add: spawn_def numeral_2_eq_2)
  from exactly_once_claiming[OF prog n run0] i nr obtain s' where
    step: "worker_step toy tasks2 0 (spawn 2 ?w) = Some s'"
    and less: "work_left tasks2 s' < work_left tasks2 (spawn 2 ?w)"
    by blast
  have "worker_step toy tasks2 0 (spawn 2 ?w) =
        Some ((spawn 2 ?w)\<lparr>threads := [Running 0, Claiming], currentTask := 1\<rparr>)"
    by (simp add: worker_step_def spawn_def tasks2_def numeral_2_eq_2)
  with step have s': "s' = (spawn 2 ?w)\<lparr>threads := [Running 0, Claiming], currentTask := 1\<rparr>"
    by simp
  have cur: "currentTask s' \<noteq> currentTask (spawn 2 ?w)" "currentTask s' = 1"
    "threads s' ! 0 = Running 0"
    by (simp_all add: s' spawn_def)
  have run: "processFiles toy tasks2 2 [0, 1, 0, 1, 0, 1] ?w = Some final2"
    unfolding final2_def by (rule run2)
  have j: "joined final2" by (simp add: joined_def final2_def)
  from exactly_once_claiming[OF prog n run] j
  have all: "mset (map snd (executed final2)) = mset [0..<length tasks2]" by blast
  from step less cur have "\<exists>s'. worker_step toy tasks2 0 (spawn 2 ?w) = Some s' \<and>
         currentTask s' \<noteq> currentTask (spawn 2 ?w) \<and>
         currentTask s' = 1 \<and> threads s' ! 0 = Running 0 \<and>
         work_left tasks2 s' < work_left tasks2 (spawn 2 ?w)" by blast
  with prog n run0 i nr run j all show ?thesis by blast
qed

section \<open>processFile: termination, the level, a missing source\<close>












text \<open>
  C9.  In the decompress direction the level is not used: any two levels give the same
  files and the same printed lines.
\<close>

theorem decompress_ignores_level:
  "processFile zl inp outp False level1 w = processFile zl inp outp False level2 w"
  by (simp add: processFile_def)

text \<open>
  C10.  When the source cannot be opened, \<^verbatim>\<open>processFile\<close> returns with the files as they
  were (the destination is neither created nor emptied); it has printed one line on
  \<^verbatim>\<open>cerr\<close> and nothing on \<^verbatim>\<open>cout\<close>.
\<close>

theorem unopened_source_leaves_destination:
  assumes "\<not> in_opens w inp"
  shows "\<exists>w'. processFile zl inp outp c lvl w = Some w' \<and>
              files w' = files w \<and> cout w' = cout w \<and>
              cerr w' = cerr w @ [''Error opening input file: '' @ inp]"
  using assms by (simp add: processFile_def)

text \<open>The destination exists already and keeps its three bytes.\<close>

theorem unopened_source_leaves_destination_witness:
  "\<not> in_opens (one_file ''kept'' [1, 2, 3]) ''missing'' \<and>
   (\<exists>w'. processFile toy ''missing'' ''kept'' True 6 (one_file ''kept'' [1, 2, 3]) = Some w' \<and>
         files w' ''kept'' = Some [1, 2, 3] \<and> cout w' = [] \<and>
         cerr w' = [''Error opening input file: missing''])"
proof -
  have h: "\<not> in_opens (one_file ''kept'' [1, 2, 3]) ''missing''"
    by (simp add: in_opens_def one_file_def)
  from unopened_source_leaves_destination[OF h, of toy "''kept''" True 6] h
  show ?thesis by (auto simp: one_file_def)
qed

section \<open>The finish signal\<close>

lemma chunk_loop_whole_chunks:
  assumes agree: "\<And>st inp cap. deflate zl' st inp cap Z_NO_FLUSH = deflate zl st inp cap Z_NO_FLUSH"
    and pos: "0 < isz"
  shows "length inFile = k * isz \<Longrightarrow>
         chunk_loop zl' True isz osz zs inFile outFile = chunk_loop zl True isz osz zs inFile outFile"
proof (induction k arbitrary: zs inFile outFile)
  case 0
  then show ?case by (simp add: chunk_loop_end)
next
  case (Suc k)
  from Suc.prems pos have ne: "take isz inFile \<noteq> []" and noeof: "\<not> length inFile < isz"
    and rest: "length (drop isz inFile) = k * isz"
    by auto
  have same: "transform_call zl' True False = transform_call zl True False"
    by (rule ext) (simp add: transform_call_def zcall_def agree)
  show ?case
    by (simp add: chunk_loop_chunk[OF ne] noeof same Suc.IH[OF rest]
        split: option.splits sum.splits prod.splits)
qed

text \<open>A source that ends inside the first buffer: the one chunk is drained with \<open>Z_FINISH\<close>.\<close>

lemma short_source_is_finished:
  assumes "inFile \<noteq> []" and "length inFile < isz"
  shows "chunk_loop zl True isz osz zs inFile outFile =
         (case drain (\<lambda>zs. zcall (deflate zl) zs Z_FINISH) osz (zs\<lparr>next_in := inFile\<rparr>) outFile of
            None \<Rightarrow> None
          | Some (Inl e, outFile') \<Rightarrow> Some (Inl e, outFile')
          | Some (Inr zs', outFile') \<Rightarrow> Some (Inr zs', outFile'))"
proof -
  from assms have ne: "take isz inFile \<noteq> []" and t: "take isz inFile = inFile"
    and d: "drop isz inFile = []" by auto
  have call: "transform_call zl True True = (\<lambda>zs. zcall (deflate zl) zs Z_FINISH)"
    by (rule ext) (simp add: transform_call_def)
  show ?thesis
    using assms(2)
    by (simp add: chunk_loop_chunk[OF ne] t d call chunk_loop_end
        split: option.splits sum.splits prod.splits)
qed

text \<open>
  C4 does not hold of the code.  When the source is a whole number of
  buffers long (and is not the destination), no \<^verbatim>\<open>read\<close> that delivers bytes sets
  \<^verbatim>\<open>eofbit\<close>, so every call of \<^verbatim>\<open>deflate\<close> gets \<open>Z_NO_FLUSH\<close>: whatever the library
  does on \<open>Z_FINISH\<close> has no influence on the result of \<^verbatim>\<open>processFile\<close>.
\<close>

theorem whole_chunks_never_finished:
  assumes init: "deflateInit zl' = deflateInit zl"
    and agree: "\<forall>st inp cap. deflate zl' st inp cap Z_NO_FLUSH = deflate zl st inp cap Z_NO_FLUSH"
    and src: "files w inp = Some B" and diff: "inp \<noteq> outp" and len: "length B = k * BUF"
  shows "processFile zl' inp outp True lvl w = processFile zl inp outp True lvl w"
proof -
  have pos: "0 < BUF" by (simp add: BUF_def)
  from agree have a: "\<And>st inp cap. deflate zl' st inp cap Z_NO_FLUSH = deflate zl st inp cap Z_NO_FLUSH"
    by simp
  from src diff have "the (((files w)(outp \<mapsto> [])) inp) = B" by simp
  with chunk_loop_whole_chunks[OF a pos, of B k BUF] len init show ?thesis
    by (simp add: processFile_def Let_def)
qed

text \<open>One buffer of zero bytes, with a \<open>deflate\<close> that never finishes and with one that does.\<close>

theorem whole_chunks_witness:
  "deflateInit never_finishing = deflateInit toy \<and>
   (\<forall>st inp cap. deflate never_finishing st inp cap Z_NO_FLUSH = deflate toy st inp cap Z_NO_FLUSH) \<and>
   files (one_file ''a'' (replicate 1048576 0)) ''a'' = Some (replicate 1048576 0) \<and>
   ''a'' \<noteq> ''a.gz'' \<and> length (replicate 1048576 (0::byte)) = 1 * BUF \<and>
   processFile never_finishing ''a'' ''a.gz'' True 6 (one_file ''a'' (replicate 1048576 0)) =
   processFile toy ''a'' ''a.gz'' True 6 (one_file ''a'' (replicate 1048576 0))"
proof -
  have h1: "deflateInit never_finishing = deflateInit toy" by (simp add: never_finishing_def)
  have h2: "\<forall>st inp cap. deflate never_finishing st inp cap Z_NO_FLUSH = deflate toy st inp cap Z_NO_FLUSH"
    by (simp add: never_finishing_def toy_def)
  have h3: "files (one_file ''a'' (replicate 1048576 0)) ''a'' = Some (replicate 1048576 0)"
    by (simp add: one_file_def)
  have h4: "''a'' \<noteq> ''a.gz''" by simp
  have h5: "length (replicate 1048576 (0::byte)) = 1 * BUF" by (simp add: BUF_def)
  from whole_chunks_never_finished[OF h1 h2 h3 h4 h5] h1 h2 h3 h5 show ?thesis by simp
qed

text \<open>On a source that ends inside a buffer the finish signal is given, and matters.\<close>

lemma finish_matters_on_partial_chunk:
  "map_option (\<lambda>w. files w ''a.gz'')
     (processFile never_finishing ''a'' ''a.gz'' True 6 (one_file ''a'' [1, 2, 3])) =
     Some (Some [0x78]) \<and>
   map_option (\<lambda>w. files w ''a.gz'')
     (processFile toy ''a'' ''a.gz'' True 6 (one_file ''a'' [1, 2, 3])) =
     Some (Some [0x78, 1, 1, 1, 2, 1, 3, 0])"
  by (simp add: run_simps never_finishing_def)

text \<open>
  C6 does not hold of the code.  On an empty source the loop is left at
  line 53 before any call of \<^verbatim>\<open>deflate\<close>: whatever the library, the destination is
  created with no byte in it, and the job is reported as processed.
\<close>

theorem empty_source_writes_nothing:
  assumes "files w inp = Some []" and "readable w inp" and "writable w outp"
  shows "processFile zl inp outp True lvl w =
         Some (w\<lparr>files := (files w)(outp \<mapsto> []),
                 cout := cout w @ [''Processed: '' @ inp @ '' -> '' @ outp]\<rparr>)"
proof -
  from assms(1) have "the (((files w)(outp \<mapsto> [])) inp) = []" by simp
  with assms show ?thesis
    by (simp add: processFile_def in_opens_def out_opens_def Let_def chunk_loop_end)
qed

text \<open>
  The empty source with the small instance; a finished stream of no bytes would be the
  header and the end mark.
\<close>

theorem empty_source_witness:
  "files (one_file ''e'' []) ''e'' = Some [] \<and> readable (one_file ''e'' []) ''e'' \<and>
   writable (one_file ''e'' []) ''e.gz'' \<and>
   processFile toy ''e'' ''e.gz'' True 6 (one_file ''e'' []) =
     Some \<lparr>files = [''e'' \<mapsto> [], ''e.gz'' \<mapsto> []], readable = (\<lambda>_. True), writable = (\<lambda>_. True),
           cerr = [], cout = [''Processed: e -> e.gz'']\<rparr> \<and>
   toy_deflate (deflateInit toy 6) [] BUF Z_FINISH =
     (Z_STREAM_END, Deflating True [] [] True, 0, [0x78, 0])"
proof -
  have h1: "files (one_file ''e'' []) ''e'' = Some []" by (simp add: one_file_def)
  have h2: "readable (one_file ''e'' []) ''e''" by (simp add: one_file_def)
  have h3: "writable (one_file ''e'' []) ''e.gz''" by (simp add: one_file_def)
  have fin: "toy_deflate (deflateInit toy 6) [] BUF Z_FINISH =
     (Z_STREAM_END, Deflating True [] [] True, 0, [0x78, 0])"
    by (simp add: toy_def frames_def BUF_def)
  from empty_source_writes_nothing[OF h1 h2 h3, of toy 6] h1 h2 h3 fin show ?thesis
    by (simp add: one_file_def)
qed

text \<open>\<open>Z_STREAM_ERROR\<close> ends the job at once, and the job is reported as failed.\<close>

lemma stream_error_aborts:
  assumes ne: "take isz inFile \<noteq> []"
    and err: "transform_call zl c (length inFile < isz)
                ((zs\<lparr>next_in := take isz inFile\<rparr>)\<lparr>avail_out := osz\<rparr>) = (Z_STREAM_ERROR, written, zs')"
  shows "chunk_loop zl c isz osz zs inFile outFile = Some (Inl CodecError, outFile)"
proof -
  have "drain (transform_call zl c (length inFile < isz)) osz (zs\<lparr>next_in := take isz inFile\<rparr>) outFile =
        Some (Inl CodecError, outFile)"
    by (rule drain_error[where call = "transform_call zl c (length inFile < isz)"
          and zs = "zs\<lparr>next_in := take isz inFile\<rparr>" and osz = osz, OF err]) simp
  then show ?thesis by (simp add: chunk_loop_chunk[OF ne])
qed

lemma codec_error_is_reported:
  assumes "in_opens w inp" and "out_opens w outp"
    and "chunk_loop zl c BUF BUF
           \<lparr>next_in = [], avail_out = 0, state = (if c then deflateInit zl lvl else inflateInit zl)\<rparr>
           (the (((files w)(outp \<mapsto> [])) inp)) [] = Some (Inl e, outFile)"
  shows "processFile zl inp outp c lvl w =
         Some (w\<lparr>files := (files w)(outp \<mapsto> outFile),
                 cerr := cerr w @ [''Error during compression/decompression'']\<rparr>)"
  using assms by (simp add: processFile_def Let_def)

text \<open>
  C5 does not hold of the code.  Only \<open>Z_STREAM_ERROR\<close> is tested at
  line 69.  On two bytes that are no stream \<open>inflate\<close> answers \<open>Z_DATA_ERROR\<close>, and
  \<^verbatim>\<open>processFile\<close> prints no error, leaves an empty destination and reports the job as
  processed.
\<close>

theorem data_error_reported_as_processed:
  "toy_inflate (inflateInit toy) [0, 0] BUF Z_NO_FLUSH = (Z_DATA_ERROR, Inflating Bad [], 2, []) \<and>
   Z_DATA_ERROR \<noteq> Z_STREAM_ERROR \<and>
   processFile toy ''bad.gz'' ''b'' False 0 (one_file ''bad.gz'' [0, 0]) =
     Some \<lparr>files = [''bad.gz'' \<mapsto> [0, 0], ''b'' \<mapsto> []],
           readable = (\<lambda>_. True), writable = (\<lambda>_. True),
           cerr = [], cout = [''Processed: bad.gz -> b'']\<rparr>"
  by (simp add: run_simps)

section \<open>Round trip\<close>

lemma feed_frames: "feed WantTag (frames bs @ [0]) = (AtEnd, bs)"
  by (induction bs) (simp_all add: frames_def)

lemma toy_compress_short:
  assumes "B \<noteq> []" and "2 * length B + 2 < BUF"
  shows "chunk_loop toy True BUF BUF \<lparr>next_in = [], avail_out = 0, state = deflateInit toy lvl\<rparr> B [] =
         Some (Inr \<lparr>next_in = [], avail_out = BUF - (2 * length B + 2), state = Deflating True [] [] True\<rparr>,
               0x78 # frames B @ [0])"
proof -
  from assms have ne: "take BUF B \<noteq> []" and t: "take BUF B = B" and d: "drop BUF B = []"
    and eof: "length B < BUF" by auto
  have call: "transform_call toy True True (\<lparr>next_in = B, avail_out = 0, state = deflateInit toy lvl\<rparr>\<lparr>avail_out := BUF\<rparr>)
     = (Z_STREAM_END, 0x78 # frames B @ [0],
        \<lparr>next_in = [], avail_out = BUF - (2 * length B + 2), state = Deflating True [] [] True\<rparr>)"
    using assms by (simp add: transform_call_def zcall_def toy_def Let_def length_frames)
  have "drain (transform_call toy True True) BUF \<lparr>next_in = B, avail_out = 0, state = deflateInit toy lvl\<rparr> [] =
        Some (Inr \<lparr>next_in = [], avail_out = BUF - (2 * length B + 2), state = Deflating True [] [] True\<rparr>,
              [] @ 0x78 # frames B @ [0])"
    using assms
    by (intro drain_exit[where call = "transform_call toy True True" and osz = BUF
          and zs = "\<lparr>next_in = B, avail_out = 0, state = deflateInit toy lvl\<rparr>", OF call])
       (simp_all add: Z_STREAM_END_def Z_STREAM_ERROR_def)
  then show ?thesis
    by (simp add: chunk_loop_chunk[OF ne] t d eof chunk_loop_end)
qed

lemma toy_decompress_short:
  assumes "2 * length B + 2 < BUF"
  shows "chunk_loop toy False BUF BUF \<lparr>next_in = [], avail_out = 0, state = inflateInit toy\<rparr>
           (0x78 # frames B @ [0]) [] =
         Some (Inr \<lparr>next_in = [], avail_out = BUF - length B, state = Inflating AtEnd []\<rparr>, B)"
proof -
  let ?C = "0x78 # frames B @ [0]"
  from assms have len: "length ?C < BUF" by (simp add: length_frames)
  then have ne: "take BUF ?C \<noteq> []" and t: "take BUF ?C = ?C" and d: "drop BUF ?C = []"
    by (auto simp: BUF_def)
  have call: "transform_call toy False True (\<lparr>next_in = ?C, avail_out = 0, state = inflateInit toy\<rparr>\<lparr>avail_out := BUF\<rparr>)
     = (Z_STREAM_END, B, \<lparr>next_in = [], avail_out = BUF - length B, state = Inflating AtEnd []\<rparr>)"
    using assms by (simp add: transform_call_def zcall_def toy_def Let_def feed_frames)
  have "drain (transform_call toy False True) BUF \<lparr>next_in = ?C, avail_out = 0, state = inflateInit toy\<rparr> [] =
        Some (Inr \<lparr>next_in = [], avail_out = BUF - length B, state = Inflating AtEnd []\<rparr>, [] @ B)"
    using assms
    by (intro drain_exit[where call = "transform_call toy False True" and osz = BUF
          and zs = "\<lparr>next_in = ?C, avail_out = 0, state = inflateInit toy\<rparr>", OF call])
       (simp_all add: Z_STREAM_END_def Z_STREAM_ERROR_def)
  then show ?thesis
    using len by (simp add: chunk_loop_chunk[OF ne] t d chunk_loop_end del: length_Cons length_append)
qed

text \<open>With the small instance, a source that fits one buffer comes back as it was.\<close>

lemma toy_roundtrip_short:
  assumes "B \<noteq> []" and "2 * length B + 2 < BUF"
    and "files w src = Some B" and "readable w src" and "readable w mid"
    and "writable w mid" and "writable w dst" and "src \<noteq> mid" and "mid \<noteq> dst"
  shows "\<exists>w1 w2. processFile toy src mid True lvl w = Some w1 \<and>
                 processFile toy mid dst False lvl' w1 = Some w2 \<and> files w2 dst = Some B"
  using assms
  by (simp add: processFile_def in_opens_def out_opens_def Let_def
      toy_compress_short toy_decompress_short)

text \<open>
  C1 does not hold of the code.  One buffer of zero bytes is compressed
  without the finish signal, so the held bytes never reach the destination; decompressed
  again, the result is the empty file and not the source.
\<close>

theorem roundtrip_fails_on_whole_buffer:
  "Option.bind (processFile toy ''a'' ''a.gz'' True 6 (one_file ''a'' (replicate 1048576 0)))
     (processFile toy ''a.gz'' ''b'' False 0) =
   Some \<lparr>files = [''a'' \<mapsto> replicate 1048576 0, ''a.gz'' \<mapsto> [0x78], ''b'' \<mapsto> []],
         readable = (\<lambda>_. True), writable = (\<lambda>_. True),
         cerr = [], cout = [''Processed: a -> a.gz'', ''Processed: a.gz -> b'']\<rparr> \<and>
   [] \<noteq> replicate 1048576 (0::byte)"
  by (simp add: run_simps)

section \<open>processFiles: the thread count and failing jobs\<close>

text \<open>
  C7 does not hold as stated: with no thread the call returns at once, no job has run and
  nothing is printed, though there are tasks.
\<close>

theorem zero_threads_run_silently:
  "tasks2 \<noteq> [] \<and>
   processFiles toy tasks2 0 [0, 1, 0] (one_file ''a'' [1, 2, 3]) =
     Some \<lparr>currentTask = 0, threads = [], env = one_file ''a'' [1, 2, 3], executed = []\<rparr> \<and>
   joined \<lparr>currentTask = 0, threads = [], env = one_file ''a'' [1, 2, 3], executed = []\<rparr> \<and>
   cerr (one_file ''a'' [1, 2, 3]) = [] \<and> cout (one_file ''a'' [1, 2, 3]) = []"
  by (simp add: processFiles_def spawn_def worker_step_def joined_def tasks2_def one_file_def)

text \<open>
  C7, amended.  A thread count of zero or less is not rejected: no thread is started,
  every schedule leaves the pool as it began, all joins return, no job is executed and
  the world is unchanged.
\<close>

theorem nonpositive_thread_count_runs_nothing:
  assumes "numThreads \<le> 0"
  shows "processFiles zl tasks numThreads sched w = Some (spawn numThreads w) \<and>
         joined (spawn numThreads w) \<and> threads (spawn numThreads w) = [] \<and>
         executed (spawn numThreads w) = [] \<and> env (spawn numThreads w) = w"
proof -
  have idle: "run_sched zl tasks sched s = Some s" if "threads s = []" for s
    using that by (induction sched) (simp_all add: worker_step_def)
  from assms have "threads (spawn numThreads w) = []" by (simp add: spawn_def)
  with idle show ?thesis by (simp add: processFiles_def joined_def spawn_def)
qed

text \<open>A negative count.\<close>

theorem nonpositive_thread_count_witness:
  "(- 3 :: int) \<le> 0 \<and>
   processFiles toy tasks2 (- 3) [0, 1, 0] (one_file ''a'' [1, 2, 3]) =
     Some \<lparr>currentTask = 0, threads = [], env = one_file ''a'' [1, 2, 3], executed = []\<rparr>"
proof -
  have h: "(- 3 :: int) \<le> 0" by simp
  from nonpositive_thread_count_runs_nothing[OF h, of toy tasks2 "[0, 1, 0]" "one_file ''a'' [1, 2, 3]"] h
  show ?thesis by (simp add: spawn_def)
qed








end
